theory Spec2Isabelle
  imports Main
begin

section \<open>Values, options and results\<close>

text \<open>
  The package \<^verbatim>\<open>md\<close> walks a Go value by reflection. The embedding keeps
  what the walk looks at: whether the value is the nil interface, whether its dynamic type
  implements \<^verbatim>\<open>Marshaler\<close>, its \<^verbatim>\<open>reflect.Kind\<close>, and per kind the data
  that is read.

  A Go call either returns or panics.
\<close>

datatype 'a outcome = Panic | Return 'a

text \<open>A Go \<^verbatim>\<open>error\<close> value that is not nil; \<open>None\<close> of \<open>goerror option\<close> is nil.\<close>

datatype goerror = GoError string

text \<open>
  The pair \<^verbatim>\<open>([]byte, error)\<close>. A \<^verbatim>\<open>[]byte\<close> is a \<open>string\<close> (a list of
  bytes); the nil slice is the empty list (both have length 0 and print as nothing
  under \<^verbatim>\<open>%s\<close>).
\<close>

type_synonym result = "(string \<times> goerror option) outcome"

text \<open>
  \<^item> \<open>Nil\<close>: the nil interface value (\<^verbatim>\<open>reflect.TypeOf\<close> gives nil).
  \<^item> \<open>Custom r u\<close>: a value whose dynamic type implements \<^verbatim>\<open>Marshaler\<close>
    (a pointer whose own type has the method is such a value); \<open>r\<close> is what the call
    of its \<^verbatim>\<open>MarshalMarkdown()\<close> does, a return of bytes and error or a panic, and
    \<open>u\<close> is the value as its kind describes it.
  \<^item> \<open>Str s\<close>: a value of type \<^verbatim>\<open>string\<close>.
  \<^item> \<open>NamedStr s\<close>: a value of a defined type whose kind is \<^verbatim>\<open>reflect.String\<close>
    (\<^verbatim>\<open>type Name string\<close>).
  \<^item> \<open>Struct fs\<close>: a struct with its fields in declaration order.
  \<^item> \<open>Ptr p\<close>: a pointer; \<open>None\<close> is the nil pointer, \<open>Some v\<close> points at a
    variable whose content, taken with \<^verbatim>\<open>Elem().Interface()\<close>, is \<open>v\<close>. The
    variable can be of interface type, so \<open>v\<close> can be \<open>Nil\<close>, and it can hold a
    pointer or an interface value that encodes itself, so \<open>v\<close> can be a \<open>Custom\<close>.
  \<^item> \<open>Other s\<close>: a value of any other kind; \<open>s\<close> is the text
    \<^verbatim>\<open>fmt.Sprintf("%v", v)\<close> gives.

  A field carries its \<^verbatim>\<open>Name\<close>, the result of \<^verbatim>\<open>Tag.Get("markdown")\<close>, the
  result of \<^verbatim>\<open>CanInterface()\<close> and its value. Values are finite trees: a pointer
  structure that reaches itself is outside the embedding.
\<close>

datatype gvalue =
    Nil
  | Custom result gvalue
  | Str string
  | NamedStr string
  | Struct "field list"
  | Ptr "gvalue option"
  | Other string
and field =
    Field (fieldName: string) (fieldTag: string) (canInterface: bool) (fieldValue: gvalue)

text \<open>
  \<^verbatim>\<open>marshalOpts\<close>. The level starts at 0 in \<^verbatim>\<open>Marshal\<close> and is only ever
  incremented, once per struct nesting, so it is a \<open>nat\<close>.
\<close>

record marshalOpts =
  indentLevel :: nat
  obfuscate_opt :: bool

definition tagOmitField :: string where
  "tagOmitField = ''-''"

definition tagObfuscateField :: string where
  "tagObfuscateField = ''obfuscate''"

definition withIncrementedIndentLevel :: "marshalOpts \<Rightarrow> marshalOpts" where
  "withIncrementedIndentLevel opts = opts\<lparr>indentLevel := indentLevel opts + 1\<rparr>"

section \<open>Library functions used by the package\<close>

text \<open>\<^verbatim>\<open>strings.Repeat\<close> of a one-byte string, for a count that is not negative.\<close>

definition Repeat :: "char \<Rightarrow> nat \<Rightarrow> string" where
  "Repeat c n = replicate n c"

text \<open>\<^verbatim>\<open>strings.Join\<close>.\<close>

fun Join :: "string list \<Rightarrow> string \<Rightarrow> string" where
  "Join [] sep = ''''"
| "Join [x] sep = x"
| "Join (x # y # ys) sep = x @ sep @ Join (y # ys) sep"

section \<open>The encoder\<close>

definition obfuscate :: "string \<Rightarrow> string" where
  "obfuscate str =
     (let length = length str
      in if length \<le> 4 then str
         else Repeat CHR ''*'' (length - 4) @ drop (length - 4) str)"

text \<open>
  \<^verbatim>\<open>marshalStr\<close>: the type assertion \<^verbatim>\<open>v.(string)\<close> panics unless the dynamic
  type is \<^verbatim>\<open>string\<close> itself.
\<close>

fun marshalStr :: "gvalue \<Rightarrow> marshalOpts \<Rightarrow> result" where
  "marshalStr (Str valueStr) opts =
     Return (if obfuscate_opt opts then obfuscate valueStr else valueStr, None)"
| "marshalStr _ opts = Panic"

definition applyIndentation :: "string list \<Rightarrow> nat \<Rightarrow> string list" where
  "applyIndentation lines level =
     (let lines1 = map (\<lambda>line. Repeat (CHR 0x09) level @ line) lines
      in if length lines1 > 0 \<and> level > 0
         then lines1[0 := ''\<newline>'' @ lines1 ! 0]
         else lines1)"

text \<open>The options a struct field is encoded with (\<^verbatim>\<open>innerOpts\<close>).\<close>

definition innerOpts :: "marshalOpts \<Rightarrow> field \<Rightarrow> marshalOpts" where
  "innerOpts opts fieldType =
     (let inner = withIncrementedIndentLevel opts
      in if fieldTag fieldType = tagObfuscateField
         then inner\<lparr>obfuscate_opt := True\<rparr>
         else inner)"

text \<open>\<^verbatim>\<open>fmt.Sprintf("- **%s**: %s", name, text)\<close>.\<close>

definition fieldLine :: "string \<Rightarrow> string \<Rightarrow> string" where
  "fieldLine name text = ''- **'' @ name @ ''**: '' @ text"

text \<open>
  \<^verbatim>\<open>marshal\<close> and the functions it calls. The equations of \<open>marshal\<close> are in
  the order of the source: \<^verbatim>\<open>reflect.TypeOf(v)\<close> is nil for the nil interface and
  \<^verbatim>\<open>t.Implements\<close> on it panics; a type that implements \<^verbatim>\<open>Marshaler\<close>
  gets its own method called; then the \<^verbatim>\<open>switch\<close> on \<^verbatim>\<open>t.Kind()\<close> with
  \<^verbatim>\<open>String\<close>, \<^verbatim>\<open>Struct\<close>, \<^verbatim>\<open>Ptr\<close> and the default.
  \<^verbatim>\<open>marshalPrt\<close> and \<^verbatim>\<open>marshalStruct\<close> use reflection calls that
  panic on a value of another kind; \<open>marshal\<close> never calls them so.

  \<open>marshalStruct_loop\<close> is the \<^verbatim>\<open>for\<close> loop of \<^verbatim>\<open>marshalStruct\<close> over
  the fields that are left, with the \<^verbatim>\<open>lines\<close> collected so far:
  \<open>Return (Inl err)\<close> is the early \<^verbatim>\<open>return nil, err\<close>,
  \<open>Return (Inr lines)\<close> the end of the loop.
\<close>

function (sequential) marshal :: "gvalue \<Rightarrow> marshalOpts \<Rightarrow> result"
and marshalPrt :: "gvalue \<Rightarrow> marshalOpts \<Rightarrow> result"
and marshalStruct :: "gvalue \<Rightarrow> marshalOpts \<Rightarrow> result"
and marshalStruct_loop ::
  "field list \<Rightarrow> marshalOpts \<Rightarrow> string list \<Rightarrow> (goerror + string list) outcome"
where
  "marshal Nil opts = Panic"
| "marshal (Custom r u) opts = r"
| "marshal (Str s) opts = marshalStr (Str s) opts"
| "marshal (NamedStr s) opts = marshalStr (NamedStr s) opts"
| "marshal (Struct fs) opts = marshalStruct (Struct fs) opts"
| "marshal (Ptr p) opts = marshalPrt (Ptr p) opts"
| "marshal (Other s) opts = Return (s, None)"
| "marshalPrt (Ptr None) opts = Return (''null'', None)"
| "marshalPrt (Ptr (Some v)) opts = marshal v opts"
| "marshalPrt _ opts = Panic"
| "marshalStruct (Struct fs) opts =
     (case marshalStruct_loop fs opts [] of
        Panic \<Rightarrow> Panic
      | Return (Inl err) \<Rightarrow> Return ('''', Some err)
      | Return (Inr lines) \<Rightarrow>
          Return (Join (applyIndentation lines (indentLevel opts)) ''\<newline>'', None))"
| "marshalStruct _ opts = Panic"
| "marshalStruct_loop [] opts lines = Return (Inr lines)"
| "marshalStruct_loop (f # fs) opts lines =
     (if \<not> canInterface f then marshalStruct_loop fs opts lines
      else
        (case marshal (fieldValue f) (innerOpts opts f) of
           Panic \<Rightarrow> Panic
         | Return (marshaledStructValue, Some err) \<Rightarrow> Return (Inl err)
         | Return (marshaledStructValue, None) \<Rightarrow>
             if fieldTag f = tagOmitField then marshalStruct_loop fs opts lines
             else marshalStruct_loop fs opts
                    (lines @ [fieldLine (fieldName f) marshaledStructValue])))"
  by pat_completeness auto

termination
  apply (relation "measure (\<lambda>x. case x of
          Inl (Inl (v, opts)) \<Rightarrow> 2 * size v + 1
        | Inl (Inr (v, opts)) \<Rightarrow> 2 * size v
        | Inr (Inl (v, opts)) \<Rightarrow> 2 * size v
        | Inr (Inr (fs, opts, lines)) \<Rightarrow> 2 * size_list size fs + 1)")
   apply (auto simp: less_Suc_eq_le)
  subgoal for f fs by (cases f) simp
  done

definition Marshal :: "gvalue \<Rightarrow> result" where
  "Marshal v = marshal v \<lparr>indentLevel = 0, obfuscate_opt = False\<rparr>"

section \<open>Notions used in the statements\<close>

text \<open>The bytes of a result that was returned, and whether a result is a return without error.\<close>

definition bytes_of :: "result \<Rightarrow> string" where
  "bytes_of r = (case r of Panic \<Rightarrow> '''' | Return (b, e) \<Rightarrow> b)"

definition succeeds :: "result \<Rightarrow> bool" where
  "succeeds r = (case r of Panic \<Rightarrow> False | Return (b, e) \<Rightarrow> e = None)"

text \<open>
  A field gives a line when it passes the \<^verbatim>\<open>CanInterface\<close> test and is not tagged
  \<^verbatim>\<open>-\<close>; \<open>lineOf\<close> is the line \<^verbatim>\<open>marshalStruct\<close> formats for it.
\<close>

definition shown :: "field \<Rightarrow> bool" where
  "shown f \<longleftrightarrow> canInterface f \<and> fieldTag f \<noteq> tagOmitField"

definition lineOf :: "marshalOpts \<Rightarrow> field \<Rightarrow> string" where
  "lineOf opts f =
     ''- **'' @ fieldName f @ ''**: '' @ bytes_of (marshal (fieldValue f) (innerOpts opts f))"

text \<open>The same field declared with another \<^verbatim>\<open>markdown\<close> tag.\<close>

definition withTag :: "field \<Rightarrow> string \<Rightarrow> field" where
  "withTag f t = Field (fieldName f) t (canInterface f) (fieldValue f)"

text \<open>The value a chain of pointers that are not nil ends in.\<close>

fun deref :: "gvalue \<Rightarrow> gvalue" where
  "deref (Ptr (Some v)) = deref v"
| "deref v = v"

text \<open>
  Whether the walk of \<^verbatim>\<open>marshal\<close> can arrive at a value of kind
  \<^verbatim>\<open>reflect.String\<close>: through pointers and through the fields that pass the
  \<^verbatim>\<open>CanInterface\<close> test, never into a value that encodes itself.
\<close>

fun reachesStr :: "gvalue \<Rightarrow> bool"
and reachesStr_fields :: "field list \<Rightarrow> bool" where
  "reachesStr (Str s) = True"
| "reachesStr (NamedStr s) = True"
| "reachesStr (Struct fs) = reachesStr_fields fs"
| "reachesStr (Ptr (Some v)) = reachesStr v"
| "reachesStr (Ptr None) = False"
| "reachesStr Nil = False"
| "reachesStr (Custom r u) = False"
| "reachesStr (Other s) = False"
| "reachesStr_fields [] = False"
| "reachesStr_fields (Field name tag vis v # fs) =
     ((vis \<and> reachesStr v) \<or> reachesStr_fields fs)"

section \<open>Evaluation on concrete values\<close>

lemmas eval_defs = Marshal_def innerOpts_def withIncrementedIndentLevel_def
  tagObfuscateField_def tagOmitField_def fieldLine_def applyIndentation_def
  Repeat_def obfuscate_def shown_def succeeds_def bytes_of_def withTag_def

section \<open>The loop over the fields\<close>

lemma succeeds_iff: "succeeds r \<longleftrightarrow> r = Return (bytes_of r, None)"
  by (auto simp: succeeds_def bytes_of_def split: outcome.splits)

lemma loop_acc:
  "marshalStruct_loop fs opts acc =
     (case marshalStruct_loop fs opts [] of
        Panic \<Rightarrow> Panic
      | Return (Inl err) \<Rightarrow> Return (Inl err)
      | Return (Inr ls) \<Rightarrow> Return (Inr (acc @ ls)))"
proof (induction fs arbitrary: acc)
  case Nil
  show ?case by simp
next
  case (Cons f fs)
  note IH = Cons.IH
  show ?case
  proof (cases "canInterface f")
    case False
    then show ?thesis using IH [of acc] by simp
  next
    case True
    show ?thesis
    proof (cases "marshal (fieldValue f) (innerOpts opts f)")
      case Panic
      with True show ?thesis by simp
    next
      case (Return p)
      obtain b e where p: "p = (b, e)" by (cases p)
      show ?thesis
      proof (cases e)
        case (Some err)
        with True Return p show ?thesis by simp
      next
        case None
        show ?thesis
        proof (cases "fieldTag f = tagOmitField")
          case omit: True
          with True Return p None show ?thesis using IH [of acc] by simp
        next
          case shown: False
          have "marshalStruct_loop (f # fs) opts acc =
                marshalStruct_loop fs opts (acc @ [fieldLine (fieldName f) b])"
            using True Return p None shown by simp
          moreover have "marshalStruct_loop (f # fs) opts [] =
                marshalStruct_loop fs opts [fieldLine (fieldName f) b]"
            using True Return p None shown by simp
          ultimately show ?thesis
            using IH [of "acc @ [fieldLine (fieldName f) b]"]
                  IH [of "[fieldLine (fieldName f) b]"]
            by (simp split: outcome.splits sum.splits)
        qed
      qed
    qed
  qed
qed

lemma loop_append:
  "marshalStruct_loop (xs @ ys) opts acc =
     (case marshalStruct_loop xs opts acc of
        Panic \<Rightarrow> Panic
      | Return (Inl err) \<Rightarrow> Return (Inl err)
      | Return (Inr ls) \<Rightarrow> marshalStruct_loop ys opts ls)"
  by (induction xs arbitrary: acc)
     (auto split: outcome.splits sum.splits option.splits)

lemma loop_Inr_acc:
  assumes "marshalStruct_loop fs opts acc = Return (Inr ls)"
  shows "\<exists>l. marshalStruct_loop fs opts [] = Return (Inr l) \<and> ls = acc @ l"
  using assms loop_acc [of fs opts acc]
  by (cases "marshalStruct_loop fs opts []") (auto split: sum.splits)

lemma loop_acc_Inr:
  assumes "marshalStruct_loop fs opts [] = Return (Inr l)"
  shows "marshalStruct_loop fs opts acc = Return (Inr (acc @ l))"
  using assms loop_acc [of fs opts acc] by simp

lemma loop_append_Inr:
  assumes "marshalStruct_loop (xs @ ys) opts acc = Return (Inr ls)"
  shows "\<exists>l1. marshalStruct_loop xs opts acc = Return (Inr l1) \<and>
              marshalStruct_loop ys opts l1 = Return (Inr ls)"
  using assms loop_append [of xs ys opts acc]
  by (cases "marshalStruct_loop xs opts acc") (auto split: sum.splits)

lemma loop_Cons_Inr:
  assumes "marshalStruct_loop (f # fs) opts acc = Return (Inr ls)"
  shows "\<exists>lf lq. length lf \<le> 1 \<and> marshalStruct_loop fs opts [] = Return (Inr lq) \<and>
           ls = acc @ lf @ lq \<and>
           (canInterface f \<longrightarrow> succeeds (marshal (fieldValue f) (innerOpts opts f)))"
proof (cases "canInterface f")
  case False
  with assms have "marshalStruct_loop fs opts acc = Return (Inr ls)" by simp
  then obtain lq where "marshalStruct_loop fs opts [] = Return (Inr lq)" "ls = acc @ lq"
    using loop_Inr_acc by blast
  with False show ?thesis by (intro exI [of _ "[]"] exI [of _ lq]) simp
next
  case True
  show ?thesis
  proof (cases "marshal (fieldValue f) (innerOpts opts f)")
    case Panic
    with True assms show ?thesis by simp
  next
    case (Return p)
    obtain b e where p: "p = (b, e)" by (cases p)
    show ?thesis
    proof (cases e)
      case (Some err)
      with True Return p assms show ?thesis by simp
    next
      case None
      have ok: "succeeds (marshal (fieldValue f) (innerOpts opts f))"
        using Return p None by (simp add: succeeds_def)
      show ?thesis
      proof (cases "fieldTag f = tagOmitField")
        case omit: True
        with True Return p None assms
        have "marshalStruct_loop fs opts acc = Return (Inr ls)" by simp
        then obtain lq where "marshalStruct_loop fs opts [] = Return (Inr lq)" "ls = acc @ lq"
          using loop_Inr_acc by blast
        with ok show ?thesis by (intro exI [of _ "[]"] exI [of _ lq]) simp
      next
        case vis: False
        with True Return p None assms
        have "marshalStruct_loop fs opts (acc @ [fieldLine (fieldName f) b]) = Return (Inr ls)"
          by simp
        then obtain lq where "marshalStruct_loop fs opts [] = Return (Inr lq)"
            "ls = (acc @ [fieldLine (fieldName f) b]) @ lq"
          using loop_Inr_acc by blast
        with ok show ?thesis
          by (intro exI [of _ "[fieldLine (fieldName f) b]"] exI [of _ lq]) simp
      qed
    qed
  qed
qed

lemma loop_all_succeed:
  assumes "\<forall>f \<in> set fs. canInterface f \<longrightarrow> succeeds (marshal (fieldValue f) (innerOpts opts f))"
  shows "marshalStruct_loop fs opts acc = Return (Inr (acc @ map (lineOf opts) (filter shown fs)))"
  using assms
proof (induction fs arbitrary: acc)
  case Nil
  show ?case by simp
next
  case (Cons f fs)
  have rest: "\<And>acc'. marshalStruct_loop fs opts acc' =
                 Return (Inr (acc' @ map (lineOf opts) (filter shown fs)))"
    using Cons by simp
  show ?case
  proof (cases "canInterface f")
    case False
    then have "\<not> shown f" by (simp add: shown_def)
    with False show ?thesis using rest by simp
  next
    case True
    with Cons.prems have "succeeds (marshal (fieldValue f) (innerOpts opts f))" by simp
    then have r: "marshal (fieldValue f) (innerOpts opts f) =
                    Return (bytes_of (marshal (fieldValue f) (innerOpts opts f)), None)"
      using succeeds_iff by blast
    show ?thesis
    proof (cases "fieldTag f = tagOmitField")
      case omit: True
      have "marshalStruct_loop (f # fs) opts acc = marshalStruct_loop fs opts acc"
        using True omit by (subst marshalStruct_loop.simps, subst r) simp
      moreover have "\<not> shown f" using omit by (simp add: shown_def)
      ultimately show ?thesis using rest by simp
    next
      case vis: False
      have "marshalStruct_loop (f # fs) opts acc =
              marshalStruct_loop fs opts (acc @ [lineOf opts f])"
        using True vis
        by (subst marshalStruct_loop.simps, subst r) (simp add: lineOf_def fieldLine_def)
      moreover have "shown f" using True vis by (simp add: shown_def)
      ultimately show ?thesis using rest by simp
    qed
  qed
qed

lemma loop_none_shown:
  assumes "\<forall>f \<in> set fs. \<not> shown f"
    and "marshalStruct_loop fs opts acc = Return (Inr ls)"
  shows "ls = acc"
  using assms
proof (induction fs)
  case Nil
  then show ?case by simp
next
  case (Cons f fs)
  from Cons.prems(1) have nf: "\<not> shown f" and rest: "\<forall>f \<in> set fs. \<not> shown f" by simp_all
  from Cons.prems(2) obtain lf lq where
      lq: "marshalStruct_loop fs opts [] = Return (Inr lq)" and ls: "ls = acc @ lf @ lq"
      and "length lf \<le> 1"
    using loop_Cons_Inr by blast
  have "marshalStruct_loop (f # fs) opts acc = marshalStruct_loop fs opts acc"
    using nf Cons.prems(2)
    by (auto simp: shown_def split: outcome.splits option.splits if_splits)
  with Cons.prems(2) Cons.IH [OF rest] show ?case by simp
qed

lemma loop_field_error:
  assumes "marshalStruct_loop pre opts [] = Return (Inr ls)"
    and "canInterface f"
    and "marshal (fieldValue f) (innerOpts opts f) = Return (b, Some e)"
  shows "marshal (Struct (pre @ f # post)) opts = Return ('''', Some e)"
proof -
  have "marshalStruct_loop (pre @ f # post) opts [] = marshalStruct_loop (f # post) opts ls"
    using loop_append [of pre "f # post" opts "[]"] assms(1) by simp
  also have "\<dots> = Return (Inl e)" using assms(2,3) by simp
  finally show ?thesis by simp
qed

lemma loop_field_omitted:
  assumes "fieldTag f = tagOmitField"
    and "marshal (fieldValue f) (innerOpts opts f) = Return (b, None)"
  shows "marshalStruct_loop (pre @ f # post) opts acc = marshalStruct_loop (pre @ post) opts acc"
proof -
  have "marshalStruct_loop (f # post) opts l = marshalStruct_loop post opts l" for l
    using assms by simp
  then show ?thesis
    using loop_append [of pre "f # post" opts acc] loop_append [of pre post opts acc]
    by (simp split: outcome.splits sum.splits)
qed

section \<open>Indentation and joining\<close>

lemma Join_prefix: "Join ((a @ x) # xs) sep = a @ Join (x # xs) sep"
  by (cases xs) simp_all

lemma applyIndentation_eq:
  "applyIndentation ls d =
     (case map (\<lambda>l. replicate d (CHR 0x09) @ l) ls of
        [] \<Rightarrow> []
      | x # xs \<Rightarrow> (if 0 < d then ''\<newline>'' @ x else x) # xs)"
  by (cases ls) (simp_all add: applyIndentation_def Repeat_def Let_def)

lemma Join_applyIndentation:
  "Join (applyIndentation ls d) sep =
     (if 0 < d \<and> ls \<noteq> [] then ''\<newline>'' else '''') @
     Join (map (\<lambda>l. replicate d (CHR 0x09) @ l) ls) sep"
proof (cases ls)
  case Nil
  then show ?thesis by (simp add: applyIndentation_eq)
next
  case (Cons x xs)
  then show ?thesis
    using Join_prefix [of "''\<newline>''" "replicate d (CHR 0x09) @ x"
                          "map (\<lambda>l. replicate d (CHR 0x09) @ l) xs" sep]
    by (simp add: applyIndentation_eq)
qed

section \<open>What the options can change\<close>

text \<open>
  Whether an encoding panics, fails or succeeds, and the error it fails with, do not
  depend on the options: they only change the text.
\<close>

lemma outcome_Struct_indep:
  assumes "map_outcome (map_sum id (\<lambda>_. ())) (marshalStruct_loop fs o1 []) =
           map_outcome (map_sum id (\<lambda>_. ())) (marshalStruct_loop fs o2 [])"
  shows "map_outcome snd (marshal (Struct fs) o1) = map_outcome snd (marshal (Struct fs) o2)"
proof (cases "marshalStruct_loop fs o1 []")
  case Panic
  with assms have "marshalStruct_loop fs o2 [] = Panic"
    by (cases "marshalStruct_loop fs o2 []") simp_all
  with Panic show ?thesis by simp
next
  case (Return x)
  with assms obtain y where y: "marshalStruct_loop fs o2 [] = Return y"
      and xy: "map_sum id (\<lambda>_. ()) x = map_sum id (\<lambda>_. ()) y"
    by (cases "marshalStruct_loop fs o2 []") simp_all
  show ?thesis
  proof (cases x)
    case (Inl e)
    with xy have "y = Inl e" by (cases y) simp_all
    with Inl Return y show ?thesis by simp
  next
    case (Inr ls)
    with xy obtain ls' where "y = Inr ls'" by (cases y) simp_all
    with Inr Return y show ?thesis by simp
  qed
qed

lemma outcome_Cons_indep:
  assumes m: "map_outcome snd (marshal (fieldValue f) (innerOpts o1 f)) =
              map_outcome snd (marshal (fieldValue f) (innerOpts o2 f))"
    and rest: "\<And>b1 b2. map_outcome (map_sum id (\<lambda>_. ())) (marshalStruct_loop fs o1 b1) =
                       map_outcome (map_sum id (\<lambda>_. ())) (marshalStruct_loop fs o2 b2)"
  shows "map_outcome (map_sum id (\<lambda>_. ())) (marshalStruct_loop (f # fs) o1 a1) =
         map_outcome (map_sum id (\<lambda>_. ())) (marshalStruct_loop (f # fs) o2 a2)"
proof (cases "canInterface f")
  case False
  then show ?thesis using rest [of a1 a2] by simp
next
  case True
  show ?thesis
  proof (cases "marshal (fieldValue f) (innerOpts o1 f)")
    case Panic
    with m have "marshal (fieldValue f) (innerOpts o2 f) = Panic"
      by (cases "marshal (fieldValue f) (innerOpts o2 f)") simp_all
    with Panic True show ?thesis by simp
  next
    case (Return p)
    obtain b e where p: "p = (b, e)" by (cases p)
    from m Return p obtain b' where r2: "marshal (fieldValue f) (innerOpts o2 f) = Return (b', e)"
      by (cases "marshal (fieldValue f) (innerOpts o2 f)") auto
    show ?thesis
    proof (cases e)
      case (Some err)
      with True Return p r2 show ?thesis by simp
    next
      case None
      show ?thesis
      proof (cases "fieldTag f = tagOmitField")
        case omit: True
        with None True Return p r2 show ?thesis
          using rest [of a1 a2] by simp
      next
        case vis: False
        with None True Return p r2 show ?thesis
          using rest [of "a1 @ [fieldLine (fieldName f) b]" "a2 @ [fieldLine (fieldName f) b']"]
          by simp
      qed
    qed
  qed
qed

lemma outcome_indep:
  "map_outcome snd (marshal v o1) = map_outcome snd (marshal v o2)"
  "map_outcome (map_sum id (\<lambda>_. ())) (marshalStruct_loop fs o1 a1) =
   map_outcome (map_sum id (\<lambda>_. ())) (marshalStruct_loop fs o2 a2)"
proof (induction v and fs arbitrary: o1 o2 and o1 o2 a1 a2
       rule: reachesStr_reachesStr_fields.induct)
  case (1 s) show ?case by simp
next
  case (2 s) show ?case by simp
next
  case (3 fs)
  show ?case by (rule outcome_Struct_indep) (rule 3)
next
  case (4 v)
  have "map_outcome snd (marshal v o1) = map_outcome snd (marshal v o2)" by (rule 4)
  then show ?case by simp
next
  case 5 show ?case by simp
next
  case 6 show ?case by simp
next
  case (7 r u) show ?case by simp
next
  case (8 s) show ?case by simp
next
  case 9 show ?case by simp
next
  case (10 name tag vis v fs)
  show ?case
  proof (rule outcome_Cons_indep)
    show "map_outcome snd (marshal (fieldValue (Field name tag vis v))
              (innerOpts o1 (Field name tag vis v))) =
          map_outcome snd (marshal (fieldValue (Field name tag vis v))
              (innerOpts o2 (Field name tag vis v)))"
      using "10.IH"(1) [of "innerOpts o1 (Field name tag vis v)" "innerOpts o2 (Field name tag vis v)"]
      by simp
  next
    fix b1 b2
    show "map_outcome (map_sum id (\<lambda>_. ())) (marshalStruct_loop fs o1 b1) =
          map_outcome (map_sum id (\<lambda>_. ())) (marshalStruct_loop fs o2 b2)"
      by (rule "10.IH"(2))
  qed
qed

lemma succeeds_indep:
  "succeeds (marshal v o1) \<Longrightarrow> succeeds (marshal v o2)"
  using outcome_indep(1) [of v o1 o2]
  by (cases "marshal v o1"; cases "marshal v o2") (auto simp: succeeds_def)

lemma loop_Cons_obfuscate:
  assumes "canInterface f \<longrightarrow> succeeds (marshal (fieldValue f) (innerOpts opts f))"
    and "marshalStruct_loop fs opts [] = Return (Inr lq)"
  shows "\<exists>lf'. length lf' \<le> 1 \<and>
           marshalStruct_loop (withTag f tagObfuscateField # fs) opts acc =
             Return (Inr (acc @ lf' @ lq))"
proof (cases "canInterface f")
  case False
  then have "marshalStruct_loop (withTag f tagObfuscateField # fs) opts acc =
             marshalStruct_loop fs opts acc"
    by (simp add: withTag_def)
  with assms(2) show ?thesis
    using loop_acc_Inr [of fs opts lq acc] by (intro exI [of _ "[]"]) simp
next
  case True
  let ?g = "withTag f tagObfuscateField"
  from True assms(1) have "succeeds (marshal (fieldValue f) (innerOpts opts ?g))"
    using succeeds_indep by blast
  then obtain b where r: "marshal (fieldValue f) (innerOpts opts ?g) = Return (b, None)"
    using succeeds_iff by blast
  have "marshalStruct_loop (?g # fs) opts acc =
        marshalStruct_loop fs opts (acc @ [fieldLine (fieldName f) b])"
    using True r by (simp add: withTag_def tagObfuscateField_def tagOmitField_def)
  with assms(2) show ?thesis
    using loop_acc_Inr [of fs opts lq "acc @ [fieldLine (fieldName f) b]"]
    by (intro exI [of _ "[fieldLine (fieldName f) b]"]) simp
qed

text \<open>Where no string can be reached, only the indentation level matters.\<close>

lemma no_string_indep:
  "\<not> reachesStr v \<Longrightarrow> indentLevel o1 = indentLevel o2 \<Longrightarrow> marshal v o1 = marshal v o2"
  "\<not> reachesStr_fields fs \<Longrightarrow> indentLevel o1 = indentLevel o2 \<Longrightarrow>
     marshalStruct_loop fs o1 acc = marshalStruct_loop fs o2 acc"
proof (induction v and fs arbitrary: o1 o2 and o1 o2 acc
       rule: reachesStr_reachesStr_fields.induct)
  case (1 s) then show ?case by simp
next
  case (2 s) then show ?case by simp
next
  case (3 fs)
  from "3.prems"(1) have nf: "\<not> reachesStr_fields fs" by simp
  have "marshalStruct_loop fs o1 [] = marshalStruct_loop fs o2 []"
    by (rule "3.IH" [OF nf "3.prems"(2)])
  with "3.prems"(2) show ?case by (simp split: outcome.splits sum.splits)
next
  case (4 v)
  from "4.prems"(1) have nv: "\<not> reachesStr v" by simp
  have "marshal v o1 = marshal v o2"
    by (rule "4.IH" [OF nv "4.prems"(2)])
  then show ?case by simp
next
  case 5 show ?case by simp
next
  case 6 show ?case by simp
next
  case (7 r u) show ?case by simp
next
  case (8 s) show ?case by simp
next
  case 9 show ?case by simp
next
  case (10 name tag vis v fs)
  let ?f = "Field name tag vis v"
  have lv: "indentLevel (innerOpts o1 ?f) = indentLevel (innerOpts o2 ?f)"
    using "10.prems"(2) by (simp add: innerOpts_def withIncrementedIndentLevel_def Let_def)
  have nf: "\<not> reachesStr_fields fs" using "10.prems"(1) by simp
  have rest: "marshalStruct_loop fs o1 a = marshalStruct_loop fs o2 a" for a
    by (rule "10.IH"(2) [OF nf "10.prems"(2)])
  show ?case
  proof (cases vis)
    case False
    then show ?thesis using rest [of acc] by simp
  next
    case True
    with "10.prems"(1) have "\<not> reachesStr v" by simp
    then have eq: "marshal v (innerOpts o1 ?f) = marshal v (innerOpts o2 ?f)"
      by (rule "10.IH"(1) [OF _ lv])
    have "marshalStruct_loop (?f # fs) o1 acc =
          (case marshal v (innerOpts o2 ?f) of
             Panic \<Rightarrow> Panic
           | Return (b, Some err) \<Rightarrow> Return (Inl err)
           | Return (b, None) \<Rightarrow>
               if tag = tagOmitField then marshalStruct_loop fs o2 acc
               else marshalStruct_loop fs o2 (acc @ [fieldLine name b]))"
      using True eq by (simp add: rest split: outcome.splits option.splits)
    also have "\<dots> = marshalStruct_loop (?f # fs) o2 acc"
      using True by (simp split: outcome.splits option.splits)
    finally show ?thesis .
  qed
qed

section \<open>Errors\<close>

lemma error_bytes:
  "marshal v opts = Return (b, Some e) \<Longrightarrow>
     b = '''' \<or> (case deref v of Custom r u \<Rightarrow> r = Return (b, Some e) | _ \<Rightarrow> False)"
proof (induction v rule: deref.induct)
  case (1 v)
  then show ?case by simp
qed (auto split: outcome.splits sum.splits)

section \<open>The claims\<close>

subsection \<open>Redaction\<close>

text \<open>
  C1. A string of at most 4 bytes is returned as it is. A longer string of length \<open>L\<close>
  gives a string of length \<open>L\<close> whose first \<open>L - 4\<close> bytes are all \<open>*\<close> and whose
  last 4 bytes are the last 4 bytes of the input. Lengths are in bytes, as
  \<^verbatim>\<open>len\<close> counts them.
\<close>

theorem obfuscate_spec:
  "(length s \<le> 4 \<longrightarrow> obfuscate s = s) \<and>
   (4 < length s \<longrightarrow>
      length (obfuscate s) = length s \<and>
      take (length s - 4) (obfuscate s) = replicate (length s - 4) CHR ''*'' \<and>
      drop (length s - 4) (obfuscate s) = drop (length s - 4) s)"
  by (simp add: obfuscate_def Repeat_def Let_def)

theorem obfuscate_spec_witness:
  "obfuscate ''abc'' = ''abc'' \<and>
   length (obfuscate ''abcdef1234'') = 10 \<and>
   take 6 (obfuscate ''abcdef1234'') = ''******'' \<and>
   drop 6 (obfuscate ''abcdef1234'') = ''1234''"
  using obfuscate_spec [of "''abc''"] obfuscate_spec [of "''abcdef1234''"]
  by (simp add: numeral_eq_Suc)

subsection \<open>Values that encode themselves\<close>

text \<open>
  C2. For a value whose type implements \<^verbatim>\<open>Marshaler\<close>, \<^verbatim>\<open>marshal\<close> and
  \<^verbatim>\<open>Marshal\<close> give exactly what its \<^verbatim>\<open>MarshalMarkdown\<close> gives, whatever the
  value is underneath and whatever the options (indentation level, redaction flag) are.
\<close>

theorem marshal_custom_verbatim:
  "marshal (Custom r u) opts = r \<and> Marshal (Custom r u) = r"
  by (simp add: Marshal_def)

subsection \<open>Omitted fields\<close>

text \<open>
  C3. Take a struct with a field \<open>f\<close> tagged \<^verbatim>\<open>-\<close> that passes the
  \<^verbatim>\<open>CanInterface\<close> test, the fields before it having been encoded without failure.
  The value of \<open>f\<close> is encoded all the same: if that returns an error, the struct's
  encoding returns that error and no bytes; if it succeeds, the struct's encoding is
  the one of the struct without \<open>f\<close>, so no line for \<open>f\<close> is in it.
\<close>

theorem omitted_field_still_encoded:
  assumes "fieldTag f = tagOmitField"
    and "canInterface f"
    and "marshalStruct_loop pre opts [] = Return (Inr ls)"
  shows "(marshal (fieldValue f) (innerOpts opts f) = Return (b, Some e) \<longrightarrow>
            marshal (Struct (pre @ f # post)) opts = Return ('''', Some e)) \<and>
         (marshal (fieldValue f) (innerOpts opts f) = Return (b, None) \<longrightarrow>
            marshal (Struct (pre @ f # post)) opts = marshal (Struct (pre @ post)) opts)"
proof (intro conjI impI)
  assume "marshal (fieldValue f) (innerOpts opts f) = Return (b, Some e)"
  with assms(3,2) show "marshal (Struct (pre @ f # post)) opts = Return ('''', Some e)"
    by (rule loop_field_error)
next
  assume "marshal (fieldValue f) (innerOpts opts f) = Return (b, None)"
  with assms(1)
  have "marshalStruct_loop (pre @ f # post) opts [] = marshalStruct_loop (pre @ post) opts []"
    by (rule loop_field_omitted)
  then show "marshal (Struct (pre @ f # post)) opts = marshal (Struct (pre @ post)) opts"
    by simp
qed

theorem omitted_field_still_encoded_witness:
  "marshal (Struct ([Field ''Visible'' '''' True (Str ''y'')] @
       Field ''Secret'' ''-'' True (Custom (Return ('''', Some (GoError ''boom''))) (Str ''x'')) # []))
     \<lparr>indentLevel = 0, obfuscate_opt = False\<rparr> = Return ('''', Some (GoError ''boom'')) \<and>
   marshal (Struct ([Field ''Visible'' '''' True (Str ''y'')] @
       Field ''Secret'' ''-'' True (Str ''x'') # []))
     \<lparr>indentLevel = 0, obfuscate_opt = False\<rparr> =
   marshal (Struct ([Field ''Visible'' '''' True (Str ''y'')] @ []))
     \<lparr>indentLevel = 0, obfuscate_opt = False\<rparr>"
proof -
  have p: "marshalStruct_loop [Field ''Visible'' '''' True (Str ''y'')]
             \<lparr>indentLevel = 0, obfuscate_opt = False\<rparr> [] = Return (Inr [''- **Visible**: y''])"
    by (simp add: eval_defs)
  have t1: "fieldTag (Field ''Secret'' ''-'' True
              (Custom (Return ('''', Some (GoError ''boom''))) (Str ''x''))) = tagOmitField"
    and t2: "fieldTag (Field ''Secret'' ''-'' True (Str ''x'')) = tagOmitField"
    by (simp_all add: tagOmitField_def)
  have c1: "canInterface (Field ''Secret'' ''-'' True
              (Custom (Return ('''', Some (GoError ''boom''))) (Str ''x'')))"
    and c2: "canInterface (Field ''Secret'' ''-'' True (Str ''x''))"
    by simp_all
  show ?thesis
    using omitted_field_still_encoded [OF t1 c1 p, where b = "''''" and e = "GoError ''boom''"
            and post = "[]"]
          omitted_field_still_encoded [OF t2 c2 p, where b = "''x''" and post = "[]"]
    by (simp add: eval_defs)
qed

subsection \<open>The format of a struct\<close>

text \<open>
  C4. For a struct encoded at indentation level \<open>d\<close> whose fields that pass the
  \<^verbatim>\<open>CanInterface\<close> test all encode without failure: there is one line
  \<^verbatim>\<open>- **Name**: value\<close> for each field that passes the test and is not tagged
  \<^verbatim>\<open>-\<close>, in declaration order, each after \<open>d\<close> tab bytes; the lines are joined
  with one newline between two lines and none after the last; and when \<open>d > 0\<close> and
  there is a line, one newline comes first.
\<close>

theorem struct_lines_format:
  assumes "\<forall>f \<in> set fs. canInterface f \<longrightarrow>
             succeeds (marshal (fieldValue f) (innerOpts opts f))"
  shows "marshal (Struct fs) opts =
           Return ((if 0 < indentLevel opts \<and> filter shown fs \<noteq> [] then ''\<newline>'' else '''') @
                   Join (map (\<lambda>f. replicate (indentLevel opts) (CHR 0x09) @
                                   ''- **'' @ fieldName f @ ''**: '' @
                                   bytes_of (marshal (fieldValue f) (innerOpts opts f)))
                             (filter shown fs))
                        ''\<newline>'',
                   None)"
proof -
  have "marshalStruct_loop fs opts [] = Return (Inr (map (lineOf opts) (filter shown fs)))"
    using loop_all_succeed [OF assms, of "[]"] by simp
  then have "marshal (Struct fs) opts =
      Return (Join (applyIndentation (map (lineOf opts) (filter shown fs)) (indentLevel opts))
                ''\<newline>'', None)"
    by simp
  also have "Join (applyIndentation (map (lineOf opts) (filter shown fs)) (indentLevel opts))
                ''\<newline>'' =
      (if 0 < indentLevel opts \<and> filter shown fs \<noteq> [] then ''\<newline>'' else '''') @
      Join (map (\<lambda>l. replicate (indentLevel opts) (CHR 0x09) @ l)
                (map (lineOf opts) (filter shown fs))) ''\<newline>''"
    by (simp add: Join_applyIndentation)
  also have "map (\<lambda>l. replicate (indentLevel opts) (CHR 0x09) @ l)
                (map (lineOf opts) (filter shown fs)) =
             map (\<lambda>f. replicate (indentLevel opts) (CHR 0x09) @
                        ''- **'' @ fieldName f @ ''**: '' @
                        bytes_of (marshal (fieldValue f) (innerOpts opts f)))
                 (filter shown fs)"
    by (simp add: lineOf_def)
  finally show ?thesis .
qed

theorem struct_lines_format_witness:
  "marshal (Struct [Field ''A'' '''' True (Str ''x''),
                    Field ''hidden'' '''' False (Str ''h''),
                    Field ''Secret'' ''-'' True (Str ''s''),
                    Field ''B'' '''' True (Other ''2'')])
     \<lparr>indentLevel = 2, obfuscate_opt = False\<rparr> =
   Return ([CHR 0x0A, CHR 0x09, CHR 0x09] @ ''- **A**: x'' @
           [CHR 0x0A, CHR 0x09, CHR 0x09] @ ''- **B**: 2'', None)"
  using struct_lines_format [of "[Field ''A'' '''' True (Str ''x''),
                    Field ''hidden'' '''' False (Str ''h''),
                    Field ''Secret'' ''-'' True (Str ''s''),
                    Field ''B'' '''' True (Other ''2'')]" "\<lparr>indentLevel = 2, obfuscate_opt = False\<rparr>"]
  by (simp add: eval_defs numeral_2_eq_2)

subsection \<open>Pointers\<close>

text \<open>
  C5. A nil pointer is encoded as the 4 bytes \<^verbatim>\<open>null\<close>, with no error and nothing
  around them. Any other pointer is encoded as the value it points at, with the same
  options.
\<close>

theorem marshal_pointer:
  "marshal (Ptr None) opts = Return (''null'', None) \<and>
   length ''null'' = 4 \<and>
   marshal (Ptr (Some v)) opts = marshal v opts"
  by simp

subsection \<open>Failure of a custom encoder\<close>

text \<open>
  C6, as amended. The error of a custom encoder goes up unchanged: from the encoder
  itself, through a pointer, and through a struct whose earlier fields were encoded
  without failure. A struct returns no bytes with the error. Whenever an encoding returns
  an error with bytes, the value is, behind pointers that are not nil, the failing
  encoder itself, and the bytes and the error are the ones it returned.
\<close>

theorem custom_error_propagation:
  "marshal (Custom (Return (b, Some e)) u) opts = Return (b, Some e) \<and>
   (marshal v opts = Return (b, Some e) \<longrightarrow>
      marshal (Ptr (Some v)) opts = Return (b, Some e)) \<and>
   (marshalStruct_loop pre opts [] = Return (Inr ls) \<and> canInterface f \<and>
    marshal (fieldValue f) (innerOpts opts f) = Return (b, Some e) \<longrightarrow>
      marshal (Struct (pre @ f # post)) opts = Return ('''', Some e)) \<and>
   (marshal v opts = Return (b, Some e) \<longrightarrow>
      b = '''' \<or> (case deref v of Custom r u \<Rightarrow> r = Return (b, Some e) | _ \<Rightarrow> False))"
proof (intro conjI impI)
  show "marshal (Custom (Return (b, Some e)) u) opts = Return (b, Some e)" by simp
next
  assume "marshal v opts = Return (b, Some e)"
  then show "marshal (Ptr (Some v)) opts = Return (b, Some e)" by simp
next
  assume "marshalStruct_loop pre opts [] = Return (Inr ls) \<and> canInterface f \<and>
    marshal (fieldValue f) (innerOpts opts f) = Return (b, Some e)"
  then show "marshal (Struct (pre @ f # post)) opts = Return ('''', Some e)"
    using loop_field_error by blast
next
  assume "marshal v opts = Return (b, Some e)"
  then show "b = '''' \<or> (case deref v of Custom r u \<Rightarrow> r = Return (b, Some e) | _ \<Rightarrow> False)"
    by (rule error_bytes)
qed

theorem custom_error_propagation_witness:
  "marshal (Ptr (Some (Custom (Return (''partial'', Some (GoError ''boom''))) (Other ''0''))))
     \<lparr>indentLevel = 0, obfuscate_opt = False\<rparr> = Return (''partial'', Some (GoError ''boom'')) \<and>
   marshal (Struct ([Field ''Visible'' '''' True (Str ''y'')] @
       Field ''Bad'' '''' True (Custom (Return (''partial'', Some (GoError ''boom''))) (Other ''0''))
       # [Field ''Later'' '''' True (Str ''z'')]))
     \<lparr>indentLevel = 0, obfuscate_opt = False\<rparr> = Return ('''', Some (GoError ''boom''))"
proof -
  have p: "marshalStruct_loop [Field ''Visible'' '''' True (Str ''y'')]
             \<lparr>indentLevel = 0, obfuscate_opt = False\<rparr> [] = Return (Inr [''- **Visible**: y''])"
    by (simp add: eval_defs)
  show ?thesis
    using custom_error_propagation [where b = "''partial''" and e = "GoError ''boom''"
            and u = "Other ''0''" and opts = "\<lparr>indentLevel = 0, obfuscate_opt = False\<rparr>"
            and v = "Custom (Return (''partial'', Some (GoError ''boom''))) (Other ''0'')"
            and pre = "[Field ''Visible'' '''' True (Str ''y'')]"
            and ls = "[''- **Visible**: y'']"
            and f = "Field ''Bad'' '''' True
                       (Custom (Return (''partial'', Some (GoError ''boom''))) (Other ''0''))"
            and post = "[Field ''Later'' '''' True (Str ''z'')]"]
          p
    by simp
qed

text \<open>
  C6 as written says that no bytes come with the error. A pointer to a value whose
  \<^verbatim>\<open>MarshalMarkdown\<close> returns bytes together with its error gives both.
\<close>

theorem error_with_bytes_counterexample:
  "Marshal (Ptr (Some (Custom (Return (''partial'', Some (GoError ''boom''))) (Other ''0'')))) =
     Return (''partial'', Some (GoError ''boom'')) \<and>
   bytes_of (Marshal (Ptr (Some (Custom (Return (''partial'', Some (GoError ''boom'')))
     (Other ''0''))))) \<noteq> ''''"
  by (simp add: Marshal_def bytes_of_def)

subsection \<open>Panics\<close>

text \<open>
  C7 says that no input makes the encoder crash. The nil interface value does,
  at \<^verbatim>\<open>t.Implements\<close> on the nil \<^verbatim>\<open>reflect.Type\<close>: as the input, in a
  field of interface type, or behind a pointer. So does a value of a defined string type,
  at the assertion \<^verbatim>\<open>v.(string)\<close>.
\<close>

theorem marshal_panics:
  "Marshal Nil = Panic \<and>
   Marshal (Struct [Field ''Err'' '''' True Nil]) = Panic \<and>
   Marshal (Ptr (Some Nil)) = Panic \<and>
   Marshal (NamedStr ''x'') = Panic"
  by (simp add: Marshal_def)

subsection \<open>The redaction tag and the other fields\<close>

text \<open>
  C8. Let the loop over the fields \<open>pre @ f # post\<close> end with the lines \<open>ls\<close>.
  Then \<open>ls\<close> is made of the lines of \<open>pre\<close>, at most one line for \<open>f\<close>, and the
  lines of \<open>post\<close>; and with \<open>f\<close> tagged \<^verbatim>\<open>obfuscate\<close> instead, the loop ends
  with the same lines of \<open>pre\<close> and the same lines of \<open>post\<close> around at most one line
  for \<open>f\<close>. The lines of the other fields are those they give on their own.
\<close>

theorem obfuscate_tag_not_sticky:
  assumes "marshalStruct_loop (pre @ f # post) opts acc = Return (Inr ls)"
  shows "\<exists>lp lf lf' lq.
           marshalStruct_loop pre opts [] = Return (Inr lp) \<and>
           marshalStruct_loop post opts [] = Return (Inr lq) \<and>
           length lf \<le> 1 \<and> length lf' \<le> 1 \<and>
           ls = acc @ lp @ lf @ lq \<and>
           marshalStruct_loop (pre @ withTag f tagObfuscateField # post) opts acc =
             Return (Inr (acc @ lp @ lf' @ lq))"
proof -
  from assms obtain l1 where l1: "marshalStruct_loop pre opts acc = Return (Inr l1)"
      and r1: "marshalStruct_loop (f # post) opts l1 = Return (Inr ls)"
    using loop_append_Inr by blast
  from l1 obtain lp where lp: "marshalStruct_loop pre opts [] = Return (Inr lp)"
      and l1_eq: "l1 = acc @ lp"
    using loop_Inr_acc by blast
  from r1 obtain lf lq where lf: "length lf \<le> 1"
      and lq: "marshalStruct_loop post opts [] = Return (Inr lq)"
      and ls_eq: "ls = l1 @ lf @ lq"
      and ok: "canInterface f \<longrightarrow> succeeds (marshal (fieldValue f) (innerOpts opts f))"
    using loop_Cons_Inr by blast
  from ok lq obtain lf' where lf': "length lf' \<le> 1"
      and r2: "marshalStruct_loop (withTag f tagObfuscateField # post) opts l1 =
                 Return (Inr (l1 @ lf' @ lq))"
    using loop_Cons_obfuscate by blast
  have "marshalStruct_loop (pre @ withTag f tagObfuscateField # post) opts acc =
          Return (Inr (acc @ lp @ lf' @ lq))"
    using loop_append [of pre "withTag f tagObfuscateField # post" opts acc] l1 r2 l1_eq
    by simp
  with lp lq lf lf' ls_eq l1_eq show ?thesis by auto
qed

theorem obfuscate_tag_not_sticky_witness:
  "\<exists>lp lf lf' lq.
     marshalStruct_loop [Field ''Name'' '''' True (Str ''Alice'')]
       \<lparr>indentLevel = 0, obfuscate_opt = False\<rparr> [] = Return (Inr lp) \<and>
     marshalStruct_loop [Field ''Mail'' '''' True (Str ''alice@example.org'')]
       \<lparr>indentLevel = 0, obfuscate_opt = False\<rparr> [] = Return (Inr lq) \<and>
     length lf \<le> 1 \<and> length lf' \<le> 1 \<and>
     [''- **Name**: Alice'', ''- **Token**: abcdef1234'', ''- **Mail**: alice@example.org''] =
       [] @ lp @ lf @ lq \<and>
     marshalStruct_loop ([Field ''Name'' '''' True (Str ''Alice'')] @
         withTag (Field ''Token'' '''' True (Str ''abcdef1234'')) tagObfuscateField #
         [Field ''Mail'' '''' True (Str ''alice@example.org'')])
       \<lparr>indentLevel = 0, obfuscate_opt = False\<rparr> [] = Return (Inr ([] @ lp @ lf' @ lq))"
proof -
  have h: "marshalStruct_loop ([Field ''Name'' '''' True (Str ''Alice'')] @
         Field ''Token'' '''' True (Str ''abcdef1234'') #
         [Field ''Mail'' '''' True (Str ''alice@example.org'')])
       \<lparr>indentLevel = 0, obfuscate_opt = False\<rparr> [] =
     Return (Inr [''- **Name**: Alice'', ''- **Token**: abcdef1234'',
                  ''- **Mail**: alice@example.org''])"
    by (simp add: eval_defs)
  show ?thesis by (rule obfuscate_tag_not_sticky [OF h])
qed

subsection \<open>Structs without lines\<close>

text \<open>
  C9, as amended. For a struct none of whose fields gives a line (each fails the
  \<^verbatim>\<open>CanInterface\<close> test or is tagged \<^verbatim>\<open>-\<close>): whatever the encoding returns,
  its bytes are empty; and when the fields that pass the test are all encoded without
  failure, it returns the empty string and no error.
\<close>

theorem empty_struct_output:
  assumes "\<forall>f \<in> set fs. \<not> shown f"
  shows "(marshal (Struct fs) opts = Return (b, e) \<longrightarrow> b = '''') \<and>
         ((\<forall>f \<in> set fs. canInterface f \<longrightarrow>
              succeeds (marshal (fieldValue f) (innerOpts opts f))) \<longrightarrow>
            marshal (Struct fs) opts = Return ('''', None))"
proof (intro conjI impI)
  assume r: "marshal (Struct fs) opts = Return (b, e)"
  show "b = ''''"
  proof (cases "marshalStruct_loop fs opts []")
    case Panic
    with r show ?thesis by simp
  next
    case (Return x)
    show ?thesis
    proof (cases x)
      case (Inl err)
      with Return r show ?thesis by simp
    next
      case (Inr ls)
      with Return assms have "ls = []" using loop_none_shown by blast
      with Return Inr r show ?thesis by (simp add: applyIndentation_def)
    qed
  qed
next
  assume ok: "\<forall>f \<in> set fs. canInterface f \<longrightarrow>
              succeeds (marshal (fieldValue f) (innerOpts opts f))"
  have "filter shown fs = []" using assms by (simp add: filter_empty_conv)
  then have "marshalStruct_loop fs opts [] = Return (Inr [])"
    using loop_all_succeed [OF ok, of "[]"] by simp
  then show "marshal (Struct fs) opts = Return ('''', None)"
    by (simp add: applyIndentation_def)
qed

theorem empty_struct_output_witness:
  "marshal (Struct [Field ''hidden'' '''' False (Str ''h''),
                    Field ''Secret'' ''-'' True (Str ''s'')])
     \<lparr>indentLevel = 1, obfuscate_opt = False\<rparr> = Return ('''', None)"
proof -
  have h: "\<forall>f \<in> set [Field ''hidden'' '''' False (Str ''h''),
                    Field ''Secret'' ''-'' True (Str ''s'')]. \<not> shown f"
    by (simp add: shown_def tagOmitField_def)
  show ?thesis
    using empty_struct_output [OF h, of "\<lparr>indentLevel = 1, obfuscate_opt = False\<rparr>" "''''" None]
    by (simp add: eval_defs)
qed

text \<open>
  C9 as written gives the empty string for every such struct. A field tagged
  \<^verbatim>\<open>-\<close> is still encoded, and when its encoder fails the struct's encoding is that
  error.
\<close>

theorem empty_struct_counterexample:
  "\<not> shown (Field ''Secret'' ''-'' True
       (Custom (Return ('''', Some (GoError ''boom''))) (Str ''x''))) \<and>
   Marshal (Struct [Field ''Secret'' ''-'' True
       (Custom (Return ('''', Some (GoError ''boom''))) (Str ''x''))]) =
     Return ('''', Some (GoError ''boom'')) \<and>
   Marshal (Struct [Field ''Secret'' ''-'' True
       (Custom (Return ('''', Some (GoError ''boom''))) (Str ''x''))]) \<noteq>
     Return ('''', None)"
  by (simp add: Marshal_def shown_def tagOmitField_def)

subsection \<open>Redaction of values that are not strings\<close>




end
